theory Spec2Isabelle
  imports Main
begin

section \<open>Field-name reconciliation: \<open>utils/text_utils.py\<close>\<close>

text \<open>
  The module holds two functions. \<open>normalizer\<close> brings a field name into its canonical
  form; \<open>sorter\<close> matches original field names against a pool of curated aliases.
  Both are embedded below as they are written in the source.
\<close>

subsection \<open>\<open>sorter\<close>\<close>

text \<open>
  A Python \<open>str\<close> is a sequence of code points. \<open>sorter\<close> only compares strings, takes
  prefixes and tests for emptiness, so its model is polymorphic in the character type
  \<open>'c\<close>: every result below holds for strings over any alphabet.

  \<^verbatim>\<open>
  def sorter(origin, normalized, alias):
      alias_map = {}
      used_aliases = set()
      for orig_raw, norm in zip(origin, normalized):
          if norm in alias and norm not in used_aliases:
              alias_map[orig_raw] = norm
              used_aliases.add(norm)
          else:
              fallback = next(
                  (a for a in alias if a.startswith(norm) and a not in used_aliases), None
              )
              alias_map[orig_raw] = fallback or f"{norm}"
      aligned_aliases = [alias_map[orig] for orig in origin]
      return aligned_aliases
  \<close>
\<close>

datatype 'k error = KeyError 'k

text \<open>The two local variables of \<open>sorter\<close> that the loop updates.\<close>

record 'c sorter_state =
  alias_map :: "'c list \<rightharpoonup> 'c list"
  used_aliases :: "'c list set"

definition init_state :: "'c sorter_state" where
  "init_state = \<lparr>alias_map = Map.empty, used_aliases = {}\<rparr>"

text \<open>\<open>a.startswith(norm)\<close>: \<open>norm\<close> is a prefix of \<open>a\<close>.\<close>

fun startswith :: "'c list \<Rightarrow> 'c list \<Rightarrow> bool" where
  "startswith a [] = True"
| "startswith [] (p # ps) = False"
| "startswith (c # cs) (p # ps) = (c = p \<and> startswith cs ps)"

text \<open>
  \<open>next((a for a in alias if a.startswith(norm) and a not in used_aliases), None)\<close>:
  the first element of the pool, in pool order, that passes the filter.
\<close>

definition next_match :: "'c list list \<Rightarrow> 'c list set \<Rightarrow> 'c list \<Rightarrow> 'c list option" where
  "next_match alias used norm = find (\<lambda>a. startswith a norm \<and> a \<notin> used) alias"

text \<open>
  \<open>fallback or f"{norm}"\<close>: Python's \<open>or\<close> yields its right operand when the left one
  is \<open>None\<close> or the empty string.
\<close>

definition or_norm :: "'c list option \<Rightarrow> 'c list \<Rightarrow> 'c list" where
  "or_norm fallback norm =
     (case fallback of None \<Rightarrow> norm | Some a \<Rightarrow> if a = [] then norm else a)"

text \<open>One iteration of the \<open>for\<close> loop, on the pair \<open>(orig_raw, norm)\<close>.\<close>

definition loop_body ::
  "'c list list \<Rightarrow> 'c sorter_state \<Rightarrow> 'c list \<times> 'c list \<Rightarrow> 'c sorter_state" where
  "loop_body alias st p =
     (case p of (orig_raw, norm) \<Rightarrow>
        if norm \<in> set alias \<and> norm \<notin> used_aliases st
        then st\<lparr>alias_map := (alias_map st)(orig_raw \<mapsto> norm),
                used_aliases := insert norm (used_aliases st)\<rparr>
        else let fallback = next_match alias (used_aliases st) norm
             in st\<lparr>alias_map := (alias_map st)(orig_raw \<mapsto> or_norm fallback norm)\<rparr>)"

text \<open>The loop over \<open>zip(origin, normalized)\<close>, from a given state.\<close>

definition run_loop ::
  "'c list list \<Rightarrow> 'c sorter_state \<Rightarrow> ('c list \<times> 'c list) list \<Rightarrow> 'c sorter_state" where
  "run_loop alias st ps = foldl (loop_body alias) st ps"

text \<open>
  \<open>[alias_map[orig] for orig in origin]\<close>: a key that is missing from the dictionary
  raises \<open>KeyError\<close>, and the comprehension stops there.
\<close>

fun lookup_all :: "('k \<rightharpoonup> 'v) \<Rightarrow> 'k list \<Rightarrow> 'k error + 'v list" where
  "lookup_all m [] = Inr []"
| "lookup_all m (k # ks) =
     (case m k of
        None \<Rightarrow> Inl (KeyError k)
      | Some v \<Rightarrow> (case lookup_all m ks of Inl e \<Rightarrow> Inl e | Inr vs \<Rightarrow> Inr (v # vs)))"

definition sorter ::
  "'c list list \<Rightarrow> 'c list list \<Rightarrow> 'c list list \<Rightarrow> 'c list error + 'c list list" where
  "sorter origin normalized alias =
     lookup_all (alias_map (run_loop alias init_state (zip origin normalized))) origin"

text \<open>
  Two views of a run, used to state properties of single iterations: the state in which
  iteration \<open>i\<close> starts, and the entry that iteration \<open>i\<close> writes into \<open>alias_map\<close>.
\<close>

definition state_before ::
  "'c list list \<Rightarrow> 'c list list \<Rightarrow> 'c list list \<Rightarrow> nat \<Rightarrow> 'c sorter_state" where
  "state_before origin normalized alias i =
     run_loop alias init_state (take i (zip origin normalized))"

definition assigned_at ::
  "'c list list \<Rightarrow> 'c list list \<Rightarrow> 'c list list \<Rightarrow> nat \<Rightarrow> 'c list option" where
  "assigned_at origin normalized alias i =
     alias_map (state_before origin normalized alias (Suc i)) (origin ! i)"

text \<open>
  The matching policy in the words of the specification, for one field and a given set of
  consumed aliases: (a) the normalized form itself when it is in the pool and not consumed;
  (b) otherwise the first pool candidate, in pool order, that starts with the normalized
  form and is not consumed; (c) otherwise the normalized form. An iteration of the loop
  stores this value for the set \<open>used_aliases\<close>, which holds the aliases assigned by
  exact match only.
\<close>

definition steps_abc :: "'c list list \<Rightarrow> 'c list set \<Rightarrow> 'c list \<Rightarrow> 'c list" where
  "steps_abc alias consumed norm =
     (if norm \<in> set alias \<and> norm \<notin> consumed then norm
      else case find (\<lambda>a. startswith a norm \<and> a \<notin> consumed) alias of
             Some a \<Rightarrow> a
           | None \<Rightarrow> norm)"

text \<open>
  The whole algorithm of the specification (section 4.2, step 2), over the list of
  normalized forms: each index runs steps a to c against the aliases consumed so far, and
  an alias assigned by step a or by step b is marked consumed; step c consumes nothing.
  The run records, per index, which step applied and the alias it chose.
\<close>

datatype step = Exact_match | Prefix_match | Fallback

definition spec_step :: "'c list list \<Rightarrow> 'c list set \<Rightarrow> 'c list \<Rightarrow> step \<times> 'c list" where
  "spec_step alias consumed norm =
     (if norm \<in> set alias \<and> norm \<notin> consumed then (Exact_match, norm)
      else case find (\<lambda>a. startswith a norm \<and> a \<notin> consumed) alias of
             Some a \<Rightarrow> (Prefix_match, a)
           | None \<Rightarrow> (Fallback, norm))"

fun align_trace :: "'c list list \<Rightarrow> 'c list set \<Rightarrow> 'c list list \<Rightarrow> (step \<times> 'c list) list" where
  "align_trace alias consumed [] = []"
| "align_trace alias consumed (norm # norms) =
     (case spec_step alias consumed norm of
        (s, a) \<Rightarrow>
          (s, a) # align_trace alias (if s = Fallback then consumed else insert a consumed) norms)"




subsection \<open>\<open>normalizer\<close>\<close>

text \<open>
  \<^verbatim>\<open>
  def normalizer(text):
      text = text.lower()
      text = re.sub(r"[^\w\s]", "", text)
      return re.sub(r"\s+", "_", text.strip())
  \<close>
  \<open>normalizer\<close> consults three tables of the Python library: the lower-case mapping of
  \<open>str.lower\<close> and the character classes \<open>\w\<close> and \<open>\s\<close> of \<open>re\<close> (for a \<open>str\<close>
  pattern these are the Unicode classes, and \<open>str.strip\<close> uses the same whitespace
  class as \<open>\s\<close>). Characters are modelled by the type \<open>char\<close>, read as the code points
  U+0000 to U+00FF, and the tables are written out for this range. Strings with code points
  beyond U+00FF are outside the model.
\<close>

definition code :: "char \<Rightarrow> nat" where
  "code c = of_char c"

text \<open>Upper-case letters: \<open>A-Z\<close>, U+00C0 to U+00D6, U+00D8 to U+00DE.\<close>

definition isupper :: "char \<Rightarrow> bool" where
  "isupper c =
     (let n = code c
      in (65 \<le> n \<and> n \<le> 90) \<or> (192 \<le> n \<and> n \<le> 214) \<or> (216 \<le> n \<and> n \<le> 222))"

text \<open>
  \<open>str.lower\<close>: in this range every upper-case letter has its lower-case partner 32 code
  points higher, and every other character is left as it is.
\<close>

definition lower_char :: "char \<Rightarrow> char" where
  "lower_char c = (if isupper c then char_of (code c + 32) else c)"

definition lower :: "string \<Rightarrow> string" where
  "lower text = map lower_char text"

text \<open>
  \<open>\s\<close>: U+0009 to U+000D, U+001C to U+001F, the space, U+0085 and U+00A0.
\<close>

definition isspace :: "char \<Rightarrow> bool" where
  "isspace c =
     (let n = code c
      in (9 \<le> n \<and> n \<le> 13) \<or> (28 \<le> n \<and> n \<le> 32) \<or> n = 133 \<or> n = 160)"

text \<open>
  \<open>str.isalnum\<close>: the digits, the ASCII letters, and in the upper half the letters
  (U+00AA, U+00B5, U+00BA, U+00C0 to U+00D6, U+00D8 to U+00F6, U+00F8 to U+00FF) and the
  numeric characters (superscripts U+00B2, U+00B3, U+00B9 and fractions U+00BC to U+00BE).
  \<open>\w\<close> is an alphanumeric character or the underscore.
\<close>

definition isalnum :: "char \<Rightarrow> bool" where
  "isalnum c =
     (let n = code c
      in (48 \<le> n \<and> n \<le> 57) \<or> (65 \<le> n \<and> n \<le> 90) \<or> (97 \<le> n \<and> n \<le> 122)
         \<or> n = 170 \<or> n = 178 \<or> n = 179 \<or> n = 181 \<or> n = 185 \<or> n = 186
         \<or> (188 \<le> n \<and> n \<le> 190) \<or> (192 \<le> n \<and> n \<le> 214)
         \<or> (216 \<le> n \<and> n \<le> 246) \<or> (248 \<le> n \<and> n \<le> 255))"

definition word_char :: "char \<Rightarrow> bool" where
  "word_char c = (isalnum c \<or> c = CHR ''_'')"

text \<open>\<open>re.sub(r"[^\w\s]", "", text)\<close> deletes every character that is neither \<open>\w\<close> nor \<open>\s\<close>.\<close>

definition sub_nonword :: "string \<Rightarrow> string" where
  "sub_nonword text = filter (\<lambda>c. word_char c \<or> isspace c) text"

text \<open>\<open>text.strip()\<close> removes the whitespace at both ends.\<close>

definition strip :: "string \<Rightarrow> string" where
  "strip text = rev (dropWhile isspace (rev (dropWhile isspace text)))"

text \<open>
  \<open>re.sub(r"\s+", "_", text)\<close> replaces every maximal run of whitespace by one underscore.
\<close>

function sub_spaces :: "string \<Rightarrow> string" where
  "sub_spaces [] = []"
| "sub_spaces (c # cs) =
     (if isspace c then CHR ''_'' # sub_spaces (dropWhile isspace cs) else c # sub_spaces cs)"
  by pat_completeness auto
termination
  by (relation "measure length") (auto simp: length_dropWhile_le less_Suc_eq_le)

definition normalizer :: "string \<Rightarrow> string" where
  "normalizer text = sub_spaces (strip (sub_nonword (lower text)))"

text \<open>A string in which no two underscores are adjacent.\<close>

fun single_underscores :: "string \<Rightarrow> bool" where
  "single_underscores (a # b # cs) =
     ((a \<noteq> CHR ''_'' \<or> b \<noteq> CHR ''_'') \<and> single_underscores (b # cs))"
| "single_underscores cs = True"


section \<open>Properties of \<open>sorter\<close>\<close>

lemmas sorter_eval = sorter_def run_loop_def init_state_def loop_body_def next_match_def
  or_norm_def state_before_def assigned_at_def steps_abc_def

lemmas normalizer_eval = normalizer_def lower_def lower_char_def isupper_def isspace_def
  isalnum_def word_char_def sub_nonword_def strip_def code_def char_of_def bit_Suc_0_iff

subsection \<open>The scenarios of the test suite\<close>

text \<open>
  C6. With origin \<open>["Field 1", "Field 2", "Field 3"]\<close> and normalized
  \<open>["field_1", "field_2", "field_3"]\<close>, the pool \<open>["field_1", "field_2", "field_3"]\<close>
  yields \<open>["field_1", "field_2", "field_3"]\<close>, and so does the pool
  \<open>["field_1", "field_3"]\<close>, where \<open>field_2\<close> falls back to its own normalized form.
\<close>

theorem sorter_test_scenarios:
  "sorter [''Field 1'', ''Field 2'', ''Field 3''] [''field_1'', ''field_2'', ''field_3'']
          [''field_1'', ''field_2'', ''field_3'']
     = Inr [''field_1'', ''field_2'', ''field_3'']
   \<and> sorter [''Field 1'', ''Field 2'', ''Field 3''] [''field_1'', ''field_2'', ''field_3'']
          [''field_1'', ''field_3'']
     = Inr [''field_1'', ''field_2'', ''field_3'']"
  by (simp add: sorter_eval)

subsection \<open>One iteration and the loop\<close>

lemma startswith_Nil_iff: "startswith [] p \<longleftrightarrow> p = []"
  by (cases p) simp_all

lemma startswith_refl: "startswith a a"
  by (induction a) simp_all

text \<open>
  The \<open>or\<close> of the source never changes the candidate found: an empty candidate can only
  match an empty normalized form.
\<close>

lemma or_norm_next_match:
  "or_norm (next_match alias used norm) norm =
     (case find (\<lambda>a. startswith a norm \<and> a \<notin> used) alias of Some a \<Rightarrow> a | None \<Rightarrow> norm)"
proof (cases "find (\<lambda>a. startswith a norm \<and> a \<notin> used) alias")
  case None
  then show ?thesis by (simp add: or_norm_def next_match_def)
next
  case (Some a)
  then have "startswith a norm" by (auto simp: find_Some_iff)
  then have "a = [] \<Longrightarrow> norm = []" by (simp add: startswith_Nil_iff)
  with Some show ?thesis by (auto simp: or_norm_def next_match_def)
qed

lemma alias_map_loop_body:
  "alias_map (loop_body alias st (orig, norm)) =
     (alias_map st)(orig \<mapsto> steps_abc alias (used_aliases st) norm)"
  by (simp add: loop_body_def steps_abc_def or_norm_next_match Let_def)

lemma used_aliases_loop_body:
  "used_aliases (loop_body alias st (orig, norm)) =
     (if norm \<in> set alias \<and> norm \<notin> used_aliases st
      then insert norm (used_aliases st) else used_aliases st)"
  by (simp add: loop_body_def Let_def)

lemma steps_abc_fallback:
  assumes "\<forall>a\<in>set alias. \<not> startswith a norm"
  shows "steps_abc alias consumed norm = norm"
proof -
  from assms have "norm \<notin> set alias" using startswith_refl by blast
  moreover from assms have "find (\<lambda>a. startswith a norm \<and> a \<notin> consumed) alias = None"
    by (auto simp: find_None_iff)
  ultimately show ?thesis by (simp add: steps_abc_def)
qed

lemma run_loop_Nil: "run_loop alias st [] = st"
  by (simp add: run_loop_def)

lemma run_loop_Cons: "run_loop alias st (p # ps) = run_loop alias (loop_body alias st p) ps"
  by (simp add: run_loop_def)

lemma run_loop_append:
  "run_loop alias st (ps @ qs) = run_loop alias (run_loop alias st ps) qs"
  by (simp add: run_loop_def)

lemma run_loop_snoc: "run_loop alias st (ps @ [p]) = loop_body alias (run_loop alias st ps) p"
  by (simp add: run_loop_def)

text \<open>Later iterations leave the entry of a key alone unless they process that key.\<close>

lemma alias_map_run_loop_other:
  "x \<notin> fst ` set ps \<Longrightarrow> alias_map (run_loop alias st ps) x = alias_map st x"
proof (induction ps arbitrary: st)
  case Nil
  then show ?case by (simp add: run_loop_Nil)
next
  case (Cons p ps)
  obtain orig norm where p: "p = (orig, norm)" by (cases p)
  from Cons.prems p have "x \<noteq> orig" and "x \<notin> fst ` set ps" by auto
  then show ?case
    using Cons.IH [of "loop_body alias st p"] by (simp add: run_loop_Cons p alias_map_loop_body)
qed

lemma dom_alias_map_run_loop:
  "dom (alias_map (run_loop alias st ps)) = dom (alias_map st) \<union> fst ` set ps"
proof (induction ps arbitrary: st)
  case Nil
  then show ?case by (simp add: run_loop_Nil)
next
  case (Cons p ps)
  obtain orig norm where p: "p = (orig, norm)" by (cases p)
  show ?case
    using Cons.IH [of "loop_body alias st p"] by (auto simp: run_loop_Cons p alias_map_loop_body)
qed

text \<open>Only members of the pool are ever marked as used.\<close>

lemma used_aliases_run_loop_subset:
  "used_aliases (run_loop alias st ps) \<subseteq> used_aliases st \<union> set alias"
proof (induction ps arbitrary: st)
  case Nil
  then show ?case by (simp add: run_loop_Nil)
next
  case (Cons p ps)
  obtain orig norm where p: "p = (orig, norm)" by (cases p)
  show ?case
    using Cons.IH [of "loop_body alias st p"]
    by (auto simp: run_loop_Cons p used_aliases_loop_body split: if_splits)
qed

lemma used_aliases_final_subset:
  "used_aliases (run_loop alias init_state ps) \<subseteq> set alias"
  using used_aliases_run_loop_subset [of "alias" init_state ps] by (simp add: init_state_def)

subsection \<open>Reading the result off the dictionary\<close>

lemma lookup_all_Inr:
  "set ks \<subseteq> dom m \<Longrightarrow> lookup_all m ks = Inr (map (\<lambda>k. the (m k)) ks)"
  by (induction ks) auto

lemma fst_set_zip: "length xs = length ys \<Longrightarrow> fst ` set (zip xs ys) = set xs"
  by (metis map_fst_zip set_map)

lemma sorter_Inr:
  assumes "length origin = length normalized"
  shows "sorter origin normalized alias =
           Inr (map (\<lambda>k. the (alias_map (run_loop alias init_state (zip origin normalized)) k))
                  origin)"
  unfolding sorter_def
  by (rule lookup_all_Inr) (simp add: dom_alias_map_run_loop fst_set_zip [OF assms])

lemma sorter_returns:
  "length origin = length normalized \<Longrightarrow>
     \<exists>r. sorter origin normalized alias = Inr r \<and> length r = length origin"
  by (simp add: sorter_Inr)

lemma assigned_at_steps:
  assumes "length origin = length normalized" and "i < length origin"
  shows "assigned_at origin normalized alias i =
           Some (steps_abc alias (used_aliases (state_before origin normalized alias i))
                   (normalized ! i))"
proof -
  let ?zs = "zip origin normalized"
  from assms have "i < length ?zs" by simp
  then have "take (Suc i) ?zs = take i ?zs @ [?zs ! i]"
    by (rule take_Suc_conv_app_nth)
  moreover from assms have "?zs ! i = (origin ! i, normalized ! i)" by simp
  ultimately show ?thesis
    by (simp add: assigned_at_def state_before_def run_loop_snoc alias_map_loop_body)
qed

subsection \<open>The last occurrence of an original name decides\<close>

lemma nth_in_set_drop: "n \<le> j \<Longrightarrow> j < length xs \<Longrightarrow> xs ! j \<in> set (drop n xs)"
proof -
  assume "n \<le> j" and "j < length xs"
  then have "j - n < length (drop n xs)" and "drop n xs ! (j - n) = xs ! j" by simp_all
  then show ?thesis by (metis nth_mem)
qed

lemma last_occurrence:
  "i < length xs \<Longrightarrow>
     \<exists>k. i \<le> k \<and> k < length xs \<and> xs ! k = xs ! i \<and> xs ! i \<notin> set (drop (Suc k) xs)"
proof (induction xs arbitrary: i)
  case Nil
  then show ?case by simp
next
  case (Cons x xs)
  show ?case
  proof (cases i)
    case 0
    show ?thesis
    proof (cases "x \<in> set xs")
      case True
      then obtain j where j: "j < length xs" "xs ! j = x" by (auto simp: in_set_conv_nth)
      from Cons.IH [OF j(1)] obtain k where
        "j \<le> k" "k < length xs" "xs ! k = xs ! j" "xs ! j \<notin> set (drop (Suc k) xs)" by blast
      with j 0 show ?thesis by (intro exI [of _ "Suc k"]) simp
    next
      case False
      with 0 show ?thesis by (intro exI [of _ 0]) simp
    qed
  next
    case (Suc i')
    with Cons.prems have "i' < length xs" by simp
    from Cons.IH [OF this] obtain k where
      "i' \<le> k" "k < length xs" "xs ! k = xs ! i'" "xs ! i' \<notin> set (drop (Suc k) xs)" by blast
    with Suc show ?thesis by (intro exI [of _ "Suc k"]) simp
  qed
qed

lemma final_entry:
  assumes "length origin = length normalized" and "k < length origin"
    and "origin ! k \<notin> set (drop (Suc k) origin)"
  shows "alias_map (run_loop alias init_state (zip origin normalized)) (origin ! k) =
           assigned_at origin normalized alias k"
proof -
  let ?zs = "zip origin normalized"
  have split: "?zs = take (Suc k) ?zs @ drop (Suc k) ?zs" by simp
  have "fst ` set (drop (Suc k) ?zs) = set (drop (Suc k) origin)"
    using assms(1) by (simp add: drop_zip fst_set_zip)
  with assms(3) have "origin ! k \<notin> fst ` set (drop (Suc k) ?zs)" by simp
  then have "alias_map (run_loop alias (run_loop alias init_state (take (Suc k) ?zs))
                 (drop (Suc k) ?zs)) (origin ! k) =
             alias_map (run_loop alias init_state (take (Suc k) ?zs)) (origin ! k)"
    by (rule alias_map_run_loop_other)
  then show ?thesis
    by (metis split run_loop_append assigned_at_def state_before_def)
qed

lemma sorter_nth:
  assumes "length origin = length normalized" and "i < length origin"
    and "k < length origin" and "origin ! k = origin ! i"
    and "origin ! i \<notin> set (drop (Suc k) origin)"
    and "sorter origin normalized alias = Inr r"
  shows "r ! i = steps_abc alias (used_aliases (state_before origin normalized alias k))
                   (normalized ! k)"
proof -
  let ?m = "alias_map (run_loop alias init_state (zip origin normalized))"
  from assms(6) have "r = map (\<lambda>x. the (?m x)) origin"
    by (simp add: sorter_Inr [OF assms(1)])
  with assms(2) have "r ! i = the (?m (origin ! i))" by simp
  also have "?m (origin ! i) = assigned_at origin normalized alias k"
    using final_entry [OF assms(1) assms(3)] assms(4) assms(5) by simp
  finally show ?thesis
    by (simp add: assigned_at_steps [OF assms(1) assms(3)])
qed

subsection \<open>The loop and the steps of the specification\<close>













subsection \<open>Totality\<close>

text \<open>
  C4. \<open>sorter\<close> is total: for any two input sequences \<open>origin\<close> and \<open>normalized\<close> of the
  same length and any alias pool, the empty pool included, it raises no exception and
  returns a sequence as long as \<open>origin\<close>.
\<close>

theorem sorter_total:
  "length origin = length normalized \<Longrightarrow>
     \<exists>r. sorter origin normalized alias = Inr r \<and> length r = length origin"
  by (rule sorter_returns)

theorem sorter_total_witness:
  "length [''Field 1'', ''Field 2''] = length [''field_1'', ''field_2'']
   \<and> (\<exists>r. sorter [''Field 1'', ''Field 2''] [''field_1'', ''field_2''] [] = Inr r
          \<and> length r = length [''Field 1'', ''Field 2''])"
proof -
  have h: "length [''Field 1'', ''Field 2''] = length [''field_1'', ''field_2'']" by simp
  from sorter_total [OF h, of "[]"] h show ?thesis by blast
qed

subsection \<open>The output and the iterations\<close>




text \<open>
  C9. Whenever the same string occurs at more than one position of \<open>origin\<close>, the output
  holds one and the same value at every position of that string: the assignment computed
  while its last occurrence is processed. The dictionary is keyed by the original string,
  and a later occurrence overwrites the entry of an earlier one before the output is read.
\<close>

theorem sorter_repeated_origin:
  assumes "length origin = length normalized" and "i < length origin" and "j < length origin"
    and "origin ! i = origin ! j"
  shows "\<exists>r. sorter origin normalized alias = Inr r \<and> r ! i = r ! j \<and>
           (\<exists>k. i \<le> k \<and> j \<le> k \<and> k < length origin \<and> origin ! k = origin ! i
                \<and> origin ! i \<notin> set (drop (Suc k) origin)
                \<and> assigned_at origin normalized alias k = Some (r ! i))"
proof -
  let ?m = "alias_map (run_loop alias init_state (zip origin normalized))"
  let ?r = "map (\<lambda>x. the (?m x)) origin"
  have r: "sorter origin normalized alias = Inr ?r" by (rule sorter_Inr [OF assms(1)])
  from assms have same: "?r ! i = ?r ! j" by simp
  from last_occurrence [OF assms(2)] obtain k where
    k: "i \<le> k" "k < length origin" "origin ! k = origin ! i"
      "origin ! i \<notin> set (drop (Suc k) origin)" by blast
  have "j \<le> k"
  proof (rule ccontr)
    assume "\<not> j \<le> k"
    then have "Suc k \<le> j" by simp
    with assms(3) have "origin ! j \<in> set (drop (Suc k) origin)"
      by (simp add: nth_in_set_drop)
    with assms(4) k(4) show False by simp
  qed
  moreover have "assigned_at origin normalized alias k = Some (?r ! i)"
  proof -
    have "?m (origin ! i) = assigned_at origin normalized alias k"
      using final_entry [OF assms(1) k(2)] k(3) k(4) by simp
    moreover have "assigned_at origin normalized alias k \<noteq> None"
      by (simp add: assigned_at_steps [OF assms(1) k(2)])
    ultimately show ?thesis using assms(2) by auto
  qed
  ultimately show ?thesis using r same k by blast
qed

theorem sorter_repeated_origin_witness:
  "length [''Id'', ''Id''] = length [''id'', ''id'']
   \<and> (0::nat) < length [''Id'', ''Id''] \<and> (1::nat) < length [''Id'', ''Id'']
   \<and> [''Id'', ''Id''] ! 0 = [''Id'', ''Id''] ! 1
   \<and> (\<exists>r. sorter [''Id'', ''Id''] [''id'', ''id''] [''id'', ''id_alt''] = Inr r
          \<and> r ! 0 = r ! 1
          \<and> assigned_at [''Id'', ''Id''] [''id'', ''id''] [''id'', ''id_alt''] 1 = Some (r ! 0))"
proof -
  let ?O = "[''Id'', ''Id'']"
  let ?N = "[''id'', ''id'']"
  let ?A = "[''id'', ''id_alt'']"
  have h1: "length ?O = length ?N" by simp
  have h2: "(0::nat) < length ?O" by simp
  have h3: "(1::nat) < length ?O" by simp
  have h4: "?O ! 0 = ?O ! 1" by simp
  from sorter_repeated_origin [OF h1 h2 h3 h4, of ?A] obtain r k where
    r: "sorter ?O ?N ?A = Inr r" "r ! 0 = r ! 1"
    and k: "1 \<le> k" "k < length ?O" "assigned_at ?O ?N ?A k = Some (r ! 0)"
    by blast
  from k(1) k(2) have "k = 1" by simp
  with r k(3) h1 h2 h3 h4 show ?thesis by blast
qed

subsection \<open>Exact matches\<close>

text \<open>
  C3, as the code has it. For every \<open>origin\<close> and \<open>normalized\<close> of the same length and any
  alias pool, if \<open>normalized[i]\<close> occurs verbatim in the pool, no earlier index consumed
  it, and \<open>origin[i]\<close> does not occur again at a later index, then the output at position
  \<open>i\<close> equals \<open>normalized[i]\<close>.
\<close>

theorem sorter_exact_match:
  assumes "length origin = length normalized" and "i < length origin"
    and "normalized ! i \<in> set alias"
    and "normalized ! i \<notin> used_aliases (state_before origin normalized alias i)"
    and "origin ! i \<notin> set (drop (Suc i) origin)"
  shows "\<exists>r. sorter origin normalized alias = Inr r \<and> r ! i = normalized ! i"
proof -
  from sorter_returns [OF assms(1)] obtain r where
    r: "sorter origin normalized alias = Inr r" by blast
  have "r ! i = steps_abc alias (used_aliases (state_before origin normalized alias i))
                  (normalized ! i)"
    using sorter_nth [OF assms(1) assms(2) assms(2) refl assms(5) r] .
  with assms(3) assms(4) have "r ! i = normalized ! i" by (simp add: steps_abc_def)
  with r show ?thesis by blast
qed

theorem sorter_exact_match_witness:
  "length [''Field 1'', ''Field 2'', ''Field 3''] = length [''field_1'', ''field_2'', ''field_3'']
   \<and> (1::nat) < length [''Field 1'', ''Field 2'', ''Field 3'']
   \<and> [''field_1'', ''field_2'', ''field_3''] ! 1 \<in> set [''field_2'', ''field_1'']
   \<and> [''field_1'', ''field_2'', ''field_3''] ! 1 \<notin> used_aliases
        (state_before [''Field 1'', ''Field 2'', ''Field 3'']
           [''field_1'', ''field_2'', ''field_3''] [''field_2'', ''field_1''] 1)
   \<and> [''Field 1'', ''Field 2'', ''Field 3''] ! 1
        \<notin> set (drop (Suc 1) [''Field 1'', ''Field 2'', ''Field 3''])
   \<and> (\<exists>r. sorter [''Field 1'', ''Field 2'', ''Field 3'']
              [''field_1'', ''field_2'', ''field_3''] [''field_2'', ''field_1''] = Inr r
          \<and> r ! 1 = ''field_2'')"
proof -
  let ?O = "[''Field 1'', ''Field 2'', ''Field 3'']"
  let ?N = "[''field_1'', ''field_2'', ''field_3'']"
  let ?A = "[''field_2'', ''field_1'']"
  have h1: "length ?O = length ?N" by simp
  have h2: "(1::nat) < length ?O" by simp
  have h3: "?N ! 1 \<in> set ?A" by simp
  have h4: "?N ! 1 \<notin> used_aliases (state_before ?O ?N ?A 1)"
    by (simp add: sorter_eval)
  have h5: "?O ! 1 \<notin> set (drop (Suc 1) ?O)" by simp
  from sorter_exact_match [OF h1 h2 h3 h4 h5]
  have "\<exists>r. sorter ?O ?N ?A = Inr r \<and> r ! 1 = ''field_2''" by simp
  with h1 h2 h3 h4 h5 show ?thesis by blast
qed

text \<open>
  Without the last condition the statement fails: the first \<open>Id\<close> meets its normalized
  form in the pool, unconsumed, and the output at its position is \<open>id_alt\<close>.
\<close>

theorem sorter_exact_match_counterexample:
  "sorter [''Id'', ''Id''] [''id'', ''id''] [''id'', ''id_alt''] = Inr [''id_alt'', ''id_alt'']
   \<and> [''id'', ''id''] ! 0 \<in> set [''id'', ''id_alt'']
   \<and> [''id'', ''id''] ! 0 \<notin> used_aliases
        (state_before [''Id'', ''Id''] [''id'', ''id''] [''id'', ''id_alt''] 0)
   \<and> [''id_alt'', ''id_alt''] ! 0 \<noteq> [''id'', ''id''] ! 0"
  by (simp add: sorter_eval)

subsection \<open>Falling back to the normalized form\<close>

text \<open>
  C5. If two fields of the same call share an identical normalized form, that form is not
  in the alias pool and no pool candidate starts with it, then both positions of the
  output receive that normalized form as the fallback value, and the fallback value is
  not added to the set of used aliases. The fields of a call are the entries of \<open>origin\<close>
  with their canonical forms, \<open>normalized = map nf origin\<close> for the normalizing function
  \<open>nf\<close>.
\<close>

theorem sorter_shared_fallback:
  assumes "i < length origin" and "j < length origin"
    and "nf (origin ! i) = nf (origin ! j)"
    and "nf (origin ! i) \<notin> set alias"
    and "\<forall>a\<in>set alias. \<not> startswith a (nf (origin ! i))"
  shows "\<exists>r. sorter origin (map nf origin) alias = Inr r
           \<and> r ! i = nf (origin ! i) \<and> r ! j = nf (origin ! i)
           \<and> nf (origin ! i)
               \<notin> used_aliases (run_loop alias init_state (zip origin (map nf origin)))"
proof -
  let ?N = "map nf origin"
  have len: "length origin = length ?N" by simp
  from sorter_returns [OF len] obtain r where
    r: "sorter origin ?N alias = Inr r" by blast
  have fallback: "r ! p = nf (origin ! i)"
    if p: "p < length origin" "nf (origin ! p) = nf (origin ! i)" for p
  proof -
    from last_occurrence [OF p(1)] obtain k where
      k: "k < length origin" "origin ! k = origin ! p"
        "origin ! p \<notin> set (drop (Suc k) origin)" by blast
    from k(1) k(2) p(2) have "?N ! k = nf (origin ! i)" by simp
    with sorter_nth [OF len p(1) k r] show ?thesis
      by (simp add: steps_abc_fallback [OF assms(5)])
  qed
  have "r ! i = nf (origin ! i)" by (rule fallback [OF assms(1) refl])
  moreover have "r ! j = nf (origin ! i)"
    using assms(3) by (intro fallback [OF assms(2)]) simp
  moreover have
    "nf (origin ! i) \<notin> used_aliases (run_loop alias init_state (zip origin ?N))"
    using used_aliases_final_subset [of "alias" "zip origin ?N"] assms(4) by blast
  ultimately show ?thesis using r by blast
qed

theorem sorter_shared_fallback_witness:
  "(0::nat) < length [''Well Id'', ''well id''] \<and> (1::nat) < length [''Well Id'', ''well id'']
   \<and> normalizer ([''Well Id'', ''well id''] ! 0) = normalizer ([''Well Id'', ''well id''] ! 1)
   \<and> normalizer ([''Well Id'', ''well id''] ! 0) \<notin> set [''well'', ''id'']
   \<and> \<not> startswith ''well'' (normalizer ([''Well Id'', ''well id''] ! 0))
   \<and> \<not> startswith ''id'' (normalizer ([''Well Id'', ''well id''] ! 0))
   \<and> (\<exists>r. sorter [''Well Id'', ''well id''] (map normalizer [''Well Id'', ''well id''])
              [''well'', ''id''] = Inr r
          \<and> r ! 0 = ''well_id'' \<and> r ! 1 = ''well_id'')"
proof -
  let ?O = "[''Well Id'', ''well id'']"
  let ?A = "[''well'', ''id'']"
  have n0: "normalizer ''Well Id'' = ''well_id''" by (simp add: normalizer_eval)
  have n1: "normalizer ''well id'' = ''well_id''" by (simp add: normalizer_eval)
  have h1: "(0::nat) < length ?O" by simp
  have h2: "(1::nat) < length ?O" by simp
  have h3: "normalizer (?O ! 0) = normalizer (?O ! 1)" by (simp add: n0 n1)
  have h4: "normalizer (?O ! 0) \<notin> set ?A" by (simp add: n0)
  have h5: "\<forall>a\<in>set ?A. \<not> startswith a (normalizer (?O ! 0))" by (simp add: n0)
  from sorter_shared_fallback [OF h1 h2 h3 h4 h5]
  have "\<exists>r. sorter ?O (map normalizer ?O) ?A = Inr r \<and> r ! 0 = ''well_id'' \<and> r ! 1 = ''well_id''"
    by (simp add: n0) blast
  with h1 h2 h3 h4 h5 show ?thesis by simp
qed

subsection \<open>Aliases given by a prefix match are not marked as used\<close>

text \<open>
  C1. Each alias of the pool is to be consumed by at most one original field, whether the
  exact-match branch or the prefix-match branch assigned it. The code does not keep this
  for the prefix-match branch: the \<open>else\<close> branch of the loop never adds to
  \<open>used_aliases\<close>, so an alias assigned by a prefix match stays available. Here \<open>id_2\<close>
  is given to \<open>Id\<close> by prefix and then to \<open>Id 2\<close> by exact match, and \<open>field_1\<close> is
  given by prefix to two fields; \<open>used_aliases\<close> is still empty after the first prefix
  match.
\<close>

theorem sorter_prefix_match_reused:
  "map normalizer [''Id'', ''Id 2''] = [''id'', ''id_2'']
   \<and> sorter [''Id'', ''Id 2''] [''id'', ''id_2''] [''id_2''] = Inr [''id_2'', ''id_2'']
   \<and> used_aliases (state_before [''Id'', ''Id 2''] [''id'', ''id_2''] [''id_2''] 1) = {}
   \<and> map normalizer [''Field'', ''field''] = [''field'', ''field'']
   \<and> sorter [''Field'', ''field''] [''field'', ''field''] [''field_1'']
        = Inr [''field_1'', ''field_1'']"
  by (simp add: sorter_eval normalizer_eval)


subsection \<open>Empty normalized forms\<close>

text \<open>
  C10. For an index whose normalized form is the empty string, with the empty string not
  a member of the pool, the prefix-match branch is to assign the first alias of the pool,
  in pool order, that is not yet consumed, whatever it is, and to fall back to the empty
  string only when every alias of the pool is already consumed. The code does not keep
  this: an alias assigned by the prefix-match branch is never added to \<open>used_aliases\<close>.
  Here both \<open>(%)\<close> and \<open>?\<close> normalize to the empty string and the pool holds the single
  alias \<open>pct\<close>; the first field consumes it, so the second one is to fall back to the empty
  string, as the run of the specified steps shows, and \<open>sorter\<close> gives it \<open>pct\<close> again.
\<close>

theorem sorter_empty_normalized_reuses_alias:
  "map normalizer [''(%)'', ''?''] = ['''', '''']
   \<and> [] \<notin> set [''pct'']
   \<and> sorter [''(%)'', ''?''] ['''', ''''] [''pct''] = Inr [''pct'', ''pct'']
   \<and> align_trace [''pct''] {} ['''', ''''] = [(Prefix_match, ''pct''), (Fallback, '''')]
   \<and> used_aliases (state_before [''(%)'', ''?''] ['''', ''''] [''pct''] 1) = {}"
  by (simp add: sorter_eval normalizer_eval spec_step_def)


section \<open>Properties of \<open>normalizer\<close>\<close>

subsection \<open>Characters\<close>

lemma code_less_256: "code c < 256"
  by (simp add: code_def)

lemma code_underscore: "code CHR ''_'' = 95"
  by (simp add: code_def)

lemma eq_underscore_iff: "c = CHR ''_'' \<longleftrightarrow> code c = 95"
proof
  assume "c = CHR ''_''"
  then show "code c = 95" by (simp add: code_underscore)
next
  assume "code c = 95"
  then have "(of_char c :: nat) = of_char CHR ''_''" by (simp add: code_def)
  then show "c = CHR ''_''" by (simp only: of_char_eq_iff)
qed

lemma code_lower_char: "code (lower_char c) = (if isupper c then code c + 32 else code c)"
proof (cases "isupper c")
  case True
  then have "code c + 32 < 256" by (auto simp: isupper_def Let_def)
  then have "(of_char (char_of (code c + 32)) :: nat) = code c + 32" by simp
  with True show ?thesis by (simp add: lower_char_def code_def)
next
  case False
  then show ?thesis by (simp add: lower_char_def)
qed

lemma not_isupper_lower_char: "\<not> isupper (lower_char c)"
proof (cases "isupper c")
  case True
  then show ?thesis
    unfolding isupper_def [of "lower_char c"] code_lower_char
    by (auto simp: isupper_def Let_def)
next
  case False
  then show ?thesis by (simp add: lower_char_def)
qed

lemma lower_char_eq_underscore: "lower_char c = CHR ''_'' \<longleftrightarrow> c = CHR ''_''"
  unfolding eq_underscore_iff code_lower_char
  by (auto simp: isupper_def Let_def)

lemma word_char_not_isspace: "word_char c \<Longrightarrow> \<not> isspace c"
  unfolding word_char_def eq_underscore_iff
  by (auto simp: isalnum_def isspace_def Let_def)

lemma word_char_underscore: "word_char CHR ''_''"
  by (simp add: word_char_def)

lemma not_isupper_underscore: "\<not> isupper CHR ''_''"
  by (simp add: isupper_def code_underscore)

lemma not_isspace_underscore: "\<not> isspace CHR ''_''"
  by (simp add: isspace_def code_underscore)

subsection \<open>The characters of the result\<close>

lemma set_strip_subset: "set (strip t) \<subseteq> set t"
proof
  fix c assume "c \<in> set (strip t)"
  then have "c \<in> set (dropWhile isspace (rev (dropWhile isspace t)))"
    by (simp add: strip_def)
  then have "c \<in> set (rev (dropWhile isspace t))" by (rule set_dropWhileD)
  then have "c \<in> set (dropWhile isspace t)" by simp
  then show "c \<in> set t" by (rule set_dropWhileD)
qed

lemma set_sub_spaces:
  "c \<in> set (sub_spaces t) \<Longrightarrow> c = CHR ''_'' \<or> (c \<in> set t \<and> \<not> isspace c)"
proof (induction t rule: sub_spaces.induct)
  case 1
  then show ?case by simp
next
  case (2 d ds)
  show ?case
  proof (cases "isspace d")
    case True
    with "2.prems" have "c = CHR ''_'' \<or> c \<in> set (sub_spaces (dropWhile isspace ds))"
      by simp
    with "2.IH"(1) [OF True] show ?thesis
      by (auto dest: set_dropWhileD)
  next
    case False
    with "2.prems" have "c = d \<or> c \<in> set (sub_spaces ds)" by simp
    with "2.IH"(2) [OF False] False show ?thesis by auto
  qed
qed

lemma normalizer_char:
  assumes "c \<in> set (normalizer s)"
  shows "\<not> isupper c \<and> \<not> isspace c \<and> word_char c"
proof -
  let ?t = "strip (sub_nonword (lower s))"
  from assms have "c \<in> set (sub_spaces ?t)" by (simp add: normalizer_def)
  then consider "c = CHR ''_''" | "c \<in> set ?t" "\<not> isspace c"
    using set_sub_spaces by blast
  then show ?thesis
  proof cases
    case 1
    then show ?thesis
      by (simp add: word_char_underscore not_isupper_underscore not_isspace_underscore)
  next
    case 2
    from 2(1) have in_f: "c \<in> set (sub_nonword (lower s))"
      using set_strip_subset by blast
    then have "word_char c \<or> isspace c" by (simp add: sub_nonword_def)
    with 2(2) have "word_char c" by simp
    moreover from in_f have "c \<in> set (lower s)" by (simp add: sub_nonword_def)
    then have "\<not> isupper c" by (auto simp: lower_def not_isupper_lower_char)
    ultimately show ?thesis using 2(2) by simp
  qed
qed

subsection \<open>Idempotence\<close>

lemma dropWhile_none: "\<forall>c\<in>set t. \<not> P c \<Longrightarrow> dropWhile P t = t"
  by (cases t) simp_all

lemma sub_spaces_no_space: "\<forall>c\<in>set t. \<not> isspace c \<Longrightarrow> sub_spaces t = t"
  by (induction t) simp_all

lemma strip_no_space: "\<forall>c\<in>set t. \<not> isspace c \<Longrightarrow> strip t = t"
  by (simp add: strip_def dropWhile_none)

lemma lower_no_upper: "\<forall>c\<in>set t. \<not> isupper c \<Longrightarrow> lower t = t"
  by (simp add: lower_def lower_char_def map_idI)

lemma sub_nonword_words: "\<forall>c\<in>set t. word_char c \<Longrightarrow> sub_nonword t = t"
  by (simp add: sub_nonword_def)

text \<open>
  C8. \<open>normalizer\<close> is idempotent on its own output: for every input string \<open>s\<close>,
  \<open>normalizer (normalizer s) = normalizer s\<close>.
\<close>

theorem normalizer_idempotent: "normalizer (normalizer s) = normalizer s"
proof -
  let ?t = "normalizer s"
  have up: "\<forall>c\<in>set ?t. \<not> isupper c" and sp: "\<forall>c\<in>set ?t. \<not> isspace c"
    and wd: "\<forall>c\<in>set ?t. word_char c"
    using normalizer_char by blast+
  have "normalizer ?t = sub_spaces (strip (sub_nonword (lower ?t)))"
    by (simp add: normalizer_def)
  also have "\<dots> = sub_spaces (strip (sub_nonword ?t))"
    by (simp only: lower_no_upper [OF up])
  also have "\<dots> = sub_spaces (strip ?t)"
    by (simp only: sub_nonword_words [OF wd])
  also have "\<dots> = sub_spaces ?t"
    by (simp only: strip_no_space [OF sp])
  also have "\<dots> = ?t"
    by (rule sub_spaces_no_space [OF sp])
  finally show ?thesis .
qed


theorem normalizer_idempotent_witness:
  "normalizer ''  Test  String  '' = ''test_string''
   \<and> normalizer (normalizer ''  Test  String  '') = ''test_string''"
proof -
  have "normalizer ''  Test  String  '' = ''test_string''" by (simp add: normalizer_eval)
  with normalizer_idempotent [of "''  Test  String  ''"] show ?thesis by simp
qed

subsection \<open>Underscores\<close>

lemma single_underscores_Cons:
  "a \<noteq> CHR ''_'' \<Longrightarrow> single_underscores (a # r) = single_underscores r"
  by (cases r) simp_all

lemma sub_spaces_nonspace_head:
  "t \<noteq> [] \<Longrightarrow> \<not> isspace (hd t) \<Longrightarrow> sub_spaces t = hd t # sub_spaces (tl t)"
  by (cases t) simp_all

lemma sub_spaces_separators:
  assumes "CHR ''_'' \<notin> set t" and "t = [] \<or> \<not> isspace (last t)"
  shows "single_underscores (sub_spaces t)
         \<and> (sub_spaces t = [] \<or> last (sub_spaces t) \<noteq> CHR ''_'')"
  using assms
proof (induction t rule: sub_spaces.induct)
  case 1
  then show ?case by simp
next
  case (2 d ds)
  show ?case
  proof (cases "isspace d")
    case True
    let ?e = "dropWhile isspace ds"
    from "2.prems"(2) True have ds: "ds \<noteq> []" "\<not> isspace (last ds)"
      by (auto split: if_splits)
    then have e: "?e \<noteq> []"
      using last_in_set [of ds] by (auto simp: dropWhile_eq_Nil_conv)
    have "ds = takeWhile isspace ds @ ?e" by simp
    with e have "last ds = last ?e" by (metis last_appendR)
    with ds e have last_e: "?e = [] \<or> \<not> isspace (last ?e)" by simp
    from "2.prems"(1) have no_us: "CHR ''_'' \<notin> set ?e"
      by (auto dest: set_dropWhileD)
    from "2.IH"(1) [OF True no_us last_e] have
      ih: "single_underscores (sub_spaces ?e)"
        "sub_spaces ?e = [] \<or> last (sub_spaces ?e) \<noteq> CHR ''_''" by simp_all
    from e have "\<not> isspace (hd ?e)" by (rule hd_dropWhile)
    with e have unfold: "sub_spaces ?e = hd ?e # sub_spaces (tl ?e)"
      by (rule sub_spaces_nonspace_head)
    from e no_us have "hd ?e \<noteq> CHR ''_''" by (metis hd_in_set)
    with ih unfold have
      "single_underscores (CHR ''_'' # sub_spaces ?e)"
      "last (CHR ''_'' # sub_spaces ?e) \<noteq> CHR ''_''"
      by auto
    with True show ?thesis by simp
  next
    case False
    from "2.prems"(1) have d: "d \<noteq> CHR ''_''" and no_us: "CHR ''_'' \<notin> set ds" by auto
    from "2.prems"(2) have "ds = [] \<or> \<not> isspace (last ds)" by (auto split: if_splits)
    from "2.IH"(2) [OF False no_us this] have
      ih: "single_underscores (sub_spaces ds)"
        "sub_spaces ds = [] \<or> last (sub_spaces ds) \<noteq> CHR ''_''" by simp_all
    with d have "single_underscores (d # sub_spaces ds)"
      "last (d # sub_spaces ds) \<noteq> CHR ''_''"
      by (auto simp: single_underscores_Cons)
    with False show ?thesis by simp
  qed
qed

lemma strip_ends:
  "(strip t = [] \<or> \<not> isspace (hd (strip t))) \<and> (strip t = [] \<or> \<not> isspace (last (strip t)))"
proof (cases "strip t = []")
  case True
  then show ?thesis by simp
next
  case False
  let ?u = "dropWhile isspace t"
  let ?v = "dropWhile isspace (rev ?u)"
  have st: "strip t = rev ?v" by (simp add: strip_def)
  with False have v: "?v \<noteq> []" by simp
  then have hv: "\<not> isspace (hd ?v)" by (rule hd_dropWhile)
  from v have "last (rev ?v) = hd ?v" by (simp add: last_rev)
  with hv st have l: "\<not> isspace (last (strip t))" by simp
  from v have u: "?u \<noteq> []" by (cases "?u") simp_all
  then have hu: "\<not> isspace (hd ?u)" by (rule hd_dropWhile)
  from u have "last (rev ?u) = hd ?u" by (simp add: last_rev)
  with hu have "\<not> isspace (last (rev ?u))" by simp
  have "rev ?u = takeWhile isspace (rev ?u) @ ?v" by simp
  with v have "last (rev ?u) = last ?v" by (metis last_appendR)
  with \<open>last (rev ?u) = hd ?u\<close> have "last ?v = hd ?u" by simp
  moreover from v have "hd (rev ?v) = last ?v" by (simp add: hd_rev)
  ultimately have "hd (strip t) = hd ?u" using st by simp
  with hu l show ?thesis by simp
qed

lemma normalizer_separators:
  assumes "CHR ''_'' \<notin> set s"
  shows "single_underscores (normalizer s)
         \<and> (normalizer s = [] \<or> (hd (normalizer s) \<noteq> CHR ''_'' \<and> last (normalizer s) \<noteq> CHR ''_''))"
proof -
  let ?t = "strip (sub_nonword (lower s))"
  have "CHR ''_'' \<notin> set (lower s)"
  proof
    assume "CHR ''_'' \<in> set (lower s)"
    then obtain x where "x \<in> set s" "lower_char x = CHR ''_''" by (auto simp: lower_def)
    with assms show False by (simp add: lower_char_eq_underscore)
  qed
  then have "CHR ''_'' \<notin> set (sub_nonword (lower s))" by (simp add: sub_nonword_def)
  then have no_us: "CHR ''_'' \<notin> set ?t" using set_strip_subset by blast
  from strip_ends [of "sub_nonword (lower s)"] have
    ends: "?t = [] \<or> \<not> isspace (hd ?t)" "?t = [] \<or> \<not> isspace (last ?t)" by simp_all
  from sub_spaces_separators [OF no_us ends(2)] have
    a: "single_underscores (sub_spaces ?t)"
      "sub_spaces ?t = [] \<or> last (sub_spaces ?t) \<noteq> CHR ''_''" by simp_all
  have "sub_spaces ?t = [] \<or> hd (sub_spaces ?t) \<noteq> CHR ''_''"
  proof (cases "?t = []")
    case True
    then show ?thesis by simp
  next
    case False
    with ends(1) have "sub_spaces ?t = hd ?t # sub_spaces (tl ?t)"
      by (simp add: sub_spaces_nonspace_head)
    moreover from False no_us have "hd ?t \<noteq> CHR ''_''" by (metis hd_in_set)
    ultimately show ?thesis by simp
  qed
  with a show ?thesis by (auto simp: normalizer_def)
qed

text \<open>
  C7, as the code has it. For every input string \<open>s\<close> whose characters all lie in the
  range U+0000 to U+00FF, \<open>normalizer s\<close> contains no upper-case letter and no whitespace
  character, and each of its characters is alphanumeric in the sense of \<open>str.isalnum\<close>
  (a letter, a digit or a numeric character such as U+00BD) or an underscore; so it holds
  no punctuation other than the underscore. Underscores of the input are kept, next to
  each other and next to the underscores that replace whitespace. When \<open>s\<close> contains no
  underscore, no two underscores of the result are adjacent and the result neither begins
  nor ends with one. Nothing is stated for strings with characters beyond U+00FF.
\<close>

theorem normalizer_output_chars:
  "(\<forall>c\<in>set (normalizer s). \<not> isupper c \<and> \<not> isspace c \<and> (isalnum c \<or> c = CHR ''_''))
   \<and> (CHR ''_'' \<notin> set s \<longrightarrow>
        single_underscores (normalizer s)
        \<and> (normalizer s = [] \<or>
            (hd (normalizer s) \<noteq> CHR ''_'' \<and> last (normalizer s) \<noteq> CHR ''_'')))"
  using normalizer_char [of _ s] normalizer_separators [of s]
  by (auto simp: word_char_def)

theorem normalizer_output_chars_witness:
  "CHR ''_'' \<notin> set ''  Test  String  ''
   \<and> single_underscores (normalizer ''  Test  String  '')
   \<and> hd (normalizer ''  Test  String  '') \<noteq> CHR ''_''
   \<and> last (normalizer ''  Test  String  '') \<noteq> CHR ''_''
   \<and> normalizer ''  Test  String  '' = ''test_string''"
proof -
  have h: "CHR ''_'' \<notin> set ''  Test  String  ''" by simp
  have v: "normalizer ''  Test  String  '' = ''test_string''" by (simp add: normalizer_eval)
  then have ne: "normalizer ''  Test  String  '' \<noteq> []" by simp
  from normalizer_output_chars [of "''  Test  String  ''"] h ne v show ?thesis by blast
qed

text \<open>
  An underscore of the input is a word character and stays: it can follow the underscore
  that replaces a run of whitespace, and it can lead the result.
\<close>

theorem normalizer_underscores_counterexample:
  "normalizer ''a _b'' = ''a__b'' \<and> \<not> single_underscores (normalizer ''a _b'')
   \<and> normalizer ''_id'' = ''_id''"
  by (simp add: normalizer_eval)

end
